theory Spec2Isabelle
  imports Complex_Main "HOL-Library.Char_ord" "HOL-Library.List_Lexorder"
    "HOL-Library.Product_Lexorder" "HOL-Library.Sublist"
begin

section \<open>Values\<close>

text \<open>
  The values \<open>json.loads\<close> produces. Python's \<open>None\<close> and JSON's \<open>null\<close> are the same
  value, \<open>JNull\<close>: a function of the source that returns \<open>None\<close> for failure returns
  \<open>JNull\<close> here. An object is the list of its items in insertion order. Floats are carried
  as reals; the code only tests them for zero. Strings are HOL strings, one \<open>char\<close> per
  code point below 256, ordered like Python's \<open>str\<close> by code point.
\<close>

datatype json =
    JNull
  | JBool bool
  | JInt int
  | JFloat real
  | JString string
  | JArray "json list"
  | JObject "(string \<times> json) list"

text \<open>An event of the log, \<open>{ts, actor, action, target, meta}\<close>. A field read with
  \<open>e.get(...)\<close> is \<open>None\<close> when the key is missing or holds \<open>null\<close>; where
  present, the four fields that \<open>shrink_events\<close> reads are strings, as the event
  schema has them. Two events are equal when all five fields are.\<close>

record event =
  ts :: "string option"
  actor :: "string option"
  action :: "string option"
  target :: "string option"
  meta :: json

section \<open>EventSampler: \<open>shrink_events\<close>\<close>

text \<open>Python's \<open>xs[:k]\<close> and \<open>xs[s:]\<close> for an integer bound: a negative bound counts
  from the end, and a bound out of range is clamped.\<close>

definition py_slice_to :: "'a list \<Rightarrow> int \<Rightarrow> 'a list" where
  "py_slice_to xs k =
     (if 0 \<le> k then take (nat k) xs else take (nat (int (length xs) + k)) xs)"

definition py_slice_from :: "'a list \<Rightarrow> int \<Rightarrow> 'a list" where
  "py_slice_from xs s =
     (if 0 \<le> s then drop (nat s) xs else drop (nat (int (length xs) + s)) xs)"

definition protected_action :: "event \<Rightarrow> bool" where
  "protected_action e =
     (action e = Some ''match_start'' \<or> action e = Some ''match_end''
      \<or> action e = Some ''plant'' \<or> action e = Some ''defuse'')"

type_synonym event_key = "string option \<times> string option \<times> string option \<times> string option"

definition event_key :: "event \<Rightarrow> event_key" where
  "event_key e = (ts e, actor e, action e, target e)"

text \<open>The loop of lines 113-118: \<open>seen\<close> is the set of keys met so far, \<open>uniq\<close> the
  events kept, in order.\<close>

fun dedup_loop :: "event list \<Rightarrow> event_key set \<Rightarrow> event list \<Rightarrow> event list" where
  "dedup_loop [] seen uniq = uniq"
| "dedup_loop (e # es) seen uniq =
     (let key = event_key e
      in if key \<notin> seen then dedup_loop es (insert key seen) (uniq @ [e])
         else dedup_loop es seen uniq)"

text \<open>The sort key \<open>x.get("ts") or "Z"\<close>: an absent and an empty \<open>ts\<close> are both falsy.\<close>

definition ts_or_Z :: "event \<Rightarrow> string" where
  "ts_or_Z e = (case ts e of None \<Rightarrow> ''Z'' | Some t \<Rightarrow> if t = [] then ''Z'' else t)"

text \<open>\<open>list.sort(key=...)\<close> is stable, as \<open>sort_key\<close> is. In \<open>events[-max_items//2:]\<close>
  the unary minus binds tighter than \<open>//\<close>, and \<open>//\<close> rounds down as \<open>div\<close> does.\<close>

definition shrink_events :: "event list \<Rightarrow> int \<Rightarrow> event list" where
  "shrink_events events max_items =
     (if int (length events) \<le> max_items then events
      else
        let head = py_slice_to events (max_items div 2);
            tail = py_slice_from events ((- max_items) div 2);
            keep = filter protected_action events;
            merged = head @ keep @ tail;
            uniq = dedup_loop merged {} [];
            uniq = sort_key ts_or_Z uniq
        in py_slice_to uniq max_items)"

text \<open>The reference computation of the specification, in its words: the first
  \<open>maxItems/2\<close> events, every protected event, the last \<open>maxItems/2\<close> events; first
  occurrence per key; ascending by \<open>ts\<close> with an absent \<open>ts\<close> last; at most \<open>maxItems\<close>.\<close>

fun dedup_first :: "('a \<Rightarrow> 'k) \<Rightarrow> 'a list \<Rightarrow> 'a list" where
  "dedup_first k [] = []"
| "dedup_first k (x # xs) = x # dedup_first k (filter (\<lambda>y. k y \<noteq> k x) xs)"

definition ts_absent_last :: "event \<Rightarrow> nat \<times> string" where
  "ts_absent_last e = (case ts e of None \<Rightarrow> (1, []) | Some t \<Rightarrow> (0, t))"

definition shrink_reference :: "event list \<Rightarrow> int \<Rightarrow> event list" where
  "shrink_reference events max_items =
     (let half = nat (max_items div 2);
          head = take half events;
          tail = drop (length events - half) events;
          keep = filter protected_action events
      in take (nat max_items)
           (sort_key ts_absent_last (dedup_first event_key (head @ keep @ tail))))"

text \<open>A timestamp as the data model has it: ISO-8601 text is not empty and, starting with
  a digit or a sign, is ordered before \<open>"Z"\<close>.\<close>

definition ts_before_Z :: "event \<Rightarrow> bool" where
  "ts_before_Z e = (case ts e of None \<Rightarrow> True | Some t \<Rightarrow> t \<noteq> [] \<and> t < ''Z'')"

text \<open>Sample events for the concrete evaluations below.\<close>

definition ev :: "string \<Rightarrow> string \<Rightarrow> event" where
  "ev t a = \<lparr>ts = Some t, actor = Some ''p'', action = Some a, target = None, meta = JNull\<rparr>"

definition ev_no_ts :: "string \<Rightarrow> event" where
  "ev_no_ts a = \<lparr>ts = None, actor = Some ''p'', action = Some a, target = None, meta = JNull\<rparr>"

section \<open>ResponseExtractor\<close>

text \<open>\<open>str.isspace\<close> on the code points below 256, which is also what \<open>\s\<close> matches.\<close>

definition py_isspace :: "char \<Rightarrow> bool" where
  "py_isspace c = ((of_char c :: nat) \<in> {9, 10, 11, 12, 13, 28, 29, 30, 31, 32, 133, 160})"

definition py_strip :: "string \<Rightarrow> string" where
  "py_strip s = rev (dropWhile py_isspace (rev (dropWhile py_isspace s)))"

text \<open>\<open>re.sub(r"^```(?:json)?\s*", "", s)\<close>: one match, at the start of the string.\<close>

definition strip_leading_fence :: "string \<Rightarrow> string" where
  "strip_leading_fence s =
     (if prefix ''```'' s then
        (let r = drop 3 s;
             r = (if prefix ''json'' r then drop 4 r else r)
         in dropWhile py_isspace r)
      else s)"

text \<open>\<open>re.sub(r"\s*```$", "", s)\<close>: \<open>$\<close> matches at the end of the string and before a
  newline that ends it.\<close>

definition strip_trailing_fence :: "string \<Rightarrow> string" where
  "strip_trailing_fence s =
     (if suffix ''```'' s then rev (dropWhile py_isspace (drop 3 (rev s)))
      else if suffix (''```'' @ [CHR 0x0A]) s
        then rev (dropWhile py_isspace (drop 4 (rev s))) @ [CHR 0x0A]
      else s)"

text \<open>The scan of lines 133-142 over \<open>s[start:]\<close>: the number of characters up to and
  including the \<open>}\<close> that brings the depth back to zero, if there is one.\<close>

fun scan_block :: "int \<Rightarrow> string \<Rightarrow> nat option" where
  "scan_block depth [] = None"
| "scan_block depth (ch # cs) =
     (if ch = CHR ''{'' then map_option Suc (scan_block (depth + 1) cs)
      else if ch = CHR ''}'' then
        (if depth - 1 = 0 then Some 1 else map_option Suc (scan_block (depth - 1) cs))
      else map_option Suc (scan_block depth cs))"

definition extract_top_level_json :: "string \<Rightarrow> string" where
  "extract_top_level_json s0 =
     (if s0 = [] then s0
      else
        let s = py_strip s0;
            s = strip_leading_fence s;
            s = strip_trailing_fence s
        in case dropWhile (\<lambda>c. c \<noteq> CHR ''{'') s of
             [] \<Rightarrow> s
           | blk \<Rightarrow> (case scan_block 0 blk of None \<Rightarrow> s | Some n \<Rightarrow> take n blk))"

text \<open>\<open>re.sub(r"```(?:json)?", "", s)\<close> and \<open>s.replace("```", "")\<close>: matches are taken
  from left to right and do not overlap.\<close>

function remove_fences :: "string \<Rightarrow> string" where
  "remove_fences [] = []"
| "remove_fences (c # cs) =
     (if prefix ''```json'' (c # cs) then remove_fences (drop 7 (c # cs))
      else if prefix ''```'' (c # cs) then remove_fences (drop 3 (c # cs))
      else c # remove_fences cs)"
  by pat_completeness auto
termination
  by (relation "measure length") auto

function replace_ticks :: "string \<Rightarrow> string" where
  "replace_ticks [] = []"
| "replace_ticks (c # cs) =
     (if prefix ''```'' (c # cs) then replace_ticks (drop 3 (c # cs))
      else c # replace_ticks cs)"
  by pat_completeness auto
termination
  by (relation "measure length") auto

declare remove_fences.simps(2) [simp del] replace_ticks.simps(2) [simp del]

text \<open>The loop of lines 152-165 at index \<open>i\<close>, with the characters from \<open>i\<close> on still to
  read; \<open>s[start:i+1]\<close> is cut from the whole string \<open>s\<close>.\<close>

fun find_loop ::
  "string \<Rightarrow> nat \<Rightarrow> string \<Rightarrow> string list \<times> int \<times> nat option
     \<Rightarrow> string list \<times> int \<times> nat option" where
  "find_loop s i [] st = st"
| "find_loop s i (ch # cs) (out, depth, start) =
     (if ch = CHR ''{'' then
        find_loop s (Suc i) cs (out, depth + 1, if depth = 0 then Some i else start)
      else if ch = CHR ''}'' then
        (if depth > 0 then
           (case start of
              Some j \<Rightarrow>
                if depth - 1 = 0
                then find_loop s (Suc i) cs (out @ [take (Suc i - j) (drop j s)], depth - 1, None)
                else find_loop s (Suc i) cs (out, depth - 1, start)
            | None \<Rightarrow> find_loop s (Suc i) cs (out, depth - 1, start))
         else find_loop s (Suc i) cs (out, depth, start))
      else find_loop s (Suc i) cs (out, depth, start))"

definition defence :: "string \<Rightarrow> string" where
  "defence s = replace_ticks (remove_fences s)"

definition find_all_top_level_json :: "string \<Rightarrow> string list" where
  "find_all_top_level_json s0 =
     (let s = py_strip s0;
          s = defence s
      in fst (find_loop s 0 s ([], 0, None)))"

text \<open>The depth counter of that loop after it has read \<open>s\<close>.\<close>

definition depth_after :: "string \<Rightarrow> int" where
  "depth_after s = fst (snd (find_loop s 0 s ([], 0, None)))"

text \<open>Two views of the loop for the proofs: its depth counter alone, and the loop without
  indices, which carries the text of the block being read instead of its start.\<close>

fun brace_depth :: "int \<Rightarrow> string \<Rightarrow> int" where
  "brace_depth d [] = d"
| "brace_depth d (ch # cs) =
     (if ch = CHR ''{'' then brace_depth (d + 1) cs
      else if ch = CHR ''}'' then (if d > 0 then brace_depth (d - 1) cs else brace_depth d cs)
      else brace_depth d cs)"

fun blocks :: "int \<Rightarrow> string \<Rightarrow> string \<Rightarrow> string list \<times> int \<times> string" where
  "blocks d cur [] = ([], d, cur)"
| "blocks d cur (ch # cs) =
     (if ch = CHR ''{'' then blocks (d + 1) (if d = 0 then [ch] else cur @ [ch]) cs
      else if ch = CHR ''}'' then
        (if d > 0 then
           (if d - 1 = 0 then (case blocks 0 [] cs of (out, r) \<Rightarrow> ((cur @ [ch]) # out, r))
            else blocks (d - 1) (cur @ [ch]) cs)
         else blocks d cur cs)
      else blocks d (if d > 0 then cur @ [ch] else cur) cs)"

section \<open>CandidateScorer and JSONRepairer\<close>

text \<open>\<open>json.loads\<close> is library code and a parameter here: \<open>loads s = None\<close> when it
  raises, \<open>Some v\<close> when it returns \<open>v\<close>.\<close>

type_synonym loads = "string \<Rightarrow> json option"

definition dict_has :: "(string \<times> json) list \<Rightarrow> string \<Rightarrow> bool" where
  "dict_has kvs k = (k \<in> set (map fst kvs))"

definition expected_keys :: "string list" where
  "expected_keys = [''story'', ''coaching'', ''highlights'', ''metrics'']"

fun wrap_if_needed :: "json \<Rightarrow> json" where
  "wrap_if_needed (JObject kvs) =
     (if \<not> dict_has kvs ''json'' then
        (if list_all (dict_has kvs) expected_keys then JObject [(''json'', JObject kvs)]
         else JObject kvs)
      else JObject kvs)"
| "wrap_if_needed obj = obj"

text \<open>Python's truth value, as \<open>if best:\<close> takes it.\<close>

fun truthy :: "json \<Rightarrow> bool" where
  "truthy JNull = False"
| "truthy (JBool b) = b"
| "truthy (JInt i) = (i \<noteq> 0)"
| "truthy (JFloat r) = (r \<noteq> 0)"
| "truthy (JString s) = (s \<noteq> [])"
| "truthy (JArray xs) = (xs \<noteq> [])"
| "truthy (JObject kvs) = (kvs \<noteq> [])"

definition dquote :: char where
  "dquote = CHR 0x22"

text \<open>\<open>balance\<close> reads \<open>cand\<close> when it is called, after the quote was appended.\<close>

definition balance :: "string \<Rightarrow> char \<Rightarrow> char \<Rightarrow> int" where
  "balance cand opn cls = max 0 (int (count_list cand opn) - int (count_list cand cls))"

definition naive_json_repair :: "loads \<Rightarrow> string \<Rightarrow> json" where
  "naive_json_repair loads trunc =
     (let cand = py_strip (extract_top_level_json trunc)
      in if cand = [] then JNull
         else
           let cand = (if count_list cand dquote mod 2 = 1 then cand @ [dquote] else cand);
               close_braces = balance cand (CHR ''{'') (CHR ''}'');
               close_brackets = balance cand (CHR ''['') (CHR '']'');
               cand1 = cand @ replicate (nat close_brackets) (CHR '']'')
                            @ replicate (nat close_braces) (CHR ''}'')
           in case loads cand1 of
                Some v \<Rightarrow> v
              | None \<Rightarrow>
                  (let cand2 = cand @ replicate (nat close_braces) (CHR ''}'')
                                    @ replicate (nat close_brackets) (CHR '']'')
                   in case loads cand2 of Some v \<Rightarrow> v | None \<Rightarrow> JNull))"

text \<open>The repair of the specification, in its words, on a fragment.\<close>

definition repair_reference :: "loads \<Rightarrow> string \<Rightarrow> json" where
  "repair_reference loads fragment =
     (let fragment = (if odd (count_list fragment dquote) then fragment @ [dquote] else fragment);
          closeBraces = max 0 (int (count_list fragment (CHR ''{''))
                               - int (count_list fragment (CHR ''}'')));
          closeBrackets = max 0 (int (count_list fragment (CHR ''[''))
                                 - int (count_list fragment (CHR '']'')))
      in case loads (fragment @ replicate (nat closeBrackets) (CHR '']'')
                              @ replicate (nat closeBraces) (CHR ''}'')) of
           Some v \<Rightarrow> v
         | None \<Rightarrow>
             (case loads (fragment @ replicate (nat closeBraces) (CHR ''}'')
                                   @ replicate (nat closeBrackets) (CHR '']'')) of
                Some v \<Rightarrow> v
              | None \<Rightarrow> JNull))"

text \<open>Lines 243-250: the score of a normalized candidate.\<close>

definition candidate_score :: "json \<Rightarrow> int" where
  "candidate_score obj =
     (let root = (case obj of
                    JObject kvs \<Rightarrow> (case map_of kvs ''json'' of Some v \<Rightarrow> v | None \<Rightarrow> obj)
                  | _ \<Rightarrow> JObject []);
          score = (case obj of
                     JObject kvs \<Rightarrow> if dict_has kvs ''json'' then 2 else 0
                   | _ \<Rightarrow> 0)
      in case root of
           JObject rkvs \<Rightarrow> score + int (length (filter (dict_has rkvs) expected_keys))
         | _ \<Rightarrow> score)"

text \<open>Lines 235-253: \<open>best\<close> starts as \<open>None\<close> and \<open>best_score\<close> as \<open>-1\<close>.\<close>

fun pick_loop :: "loads \<Rightarrow> string list \<Rightarrow> json \<times> int \<Rightarrow> json \<times> int" where
  "pick_loop loads [] st = st"
| "pick_loop loads (cand # cs) (best, best_score) =
     (case loads cand of
        None \<Rightarrow> pick_loop loads cs (best, best_score)
      | Some obj \<Rightarrow>
          (let obj = wrap_if_needed obj;
               score = candidate_score obj
           in if score > best_score then pick_loop loads cs (obj, score)
              else pick_loop loads cs (best, best_score)))"

text \<open>Stage 3, lines 235-255: \<open>Some best\<close> when \<open>if best: return best\<close> returns, \<open>None\<close>
  when the ladder goes on to stage 4.\<close>

definition scoreAndPick :: "loads \<Rightarrow> string list \<Rightarrow> json option" where
  "scoreAndPick loads cands =
     (let best = fst (pick_loop loads cands (JNull, - 1))
      in if truthy best then Some best else None)"

text \<open>The candidates that parse, normalized, in the order found.\<close>

definition parsed_candidates :: "loads \<Rightarrow> string list \<Rightarrow> json list" where
  "parsed_candidates loads cands =
     List.map_filter (\<lambda>c. map_option wrap_if_needed (loads c)) cands"

section \<open>RecoveryOrchestrator\<close>

definition try_parse_or_coerce :: "loads \<Rightarrow> string \<Rightarrow> json" where
  "try_parse_or_coerce loads raw_text =
     (case loads raw_text of
        Some obj \<Rightarrow> wrap_if_needed obj
      | None \<Rightarrow>
          (case loads (extract_top_level_json raw_text) of
             Some obj \<Rightarrow> wrap_if_needed obj
           | None \<Rightarrow>
               (case scoreAndPick loads (find_all_top_level_json raw_text) of
                  Some best \<Rightarrow> best
                | None \<Rightarrow> naive_json_repair loads raw_text)))"

text \<open>What the caller asks of the result: an object with the key \<open>json\<close>.\<close>

fun has_json :: "json \<Rightarrow> bool" where
  "has_json (JObject kvs) = dict_has kvs ''json''"
| "has_json obj = False"

text \<open>A parsed value that is an object with the key \<open>json\<close> or with all four fields of
  a report.\<close>

definition json_or_report :: "json \<Rightarrow> bool" where
  "json_or_report obj =
     (case obj of
        JObject kvs \<Rightarrow> dict_has kvs ''json'' \<or> list_all (dict_has kvs) expected_keys
      | _ \<Rightarrow> False)"

text \<open>Sample texts for the concrete evaluations below, and a finite part of \<open>json.loads\<close>:
  it returns what \<open>json.loads\<close> returns on the texts of its table and raises elsewhere.\<close>

definition quoted :: "string \<Rightarrow> string" where
  "quoted s = dquote # s @ [dquote]"

definition sample_fragment :: string where
  "sample_fragment = ''{'' @ quoted ''a'' @ '':'' @ dquote # ''b''"

definition sample_loads :: loads where
  "sample_loads = map_of
     [(sample_fragment @ dquote # ''}'', JObject [(''a'', JString ''b'')]),
      (''{}'', JObject []),
      (''{'' @ quoted ''story'' @ '':1}'', JObject [(''story'', JInt 1)]),
      (''{'' @ quoted ''json'' @ '':{}}'', JObject [(''json'', JObject [])]),
      (''{'' @ quoted ''json'' @ '':0}'', JObject [(''json'', JInt 0)])]"

text \<open>A complete object followed by other text, and the part of \<open>json.loads\<close> that
  parses the object.\<close>

definition sample_closed :: string where
  "sample_closed = ''{'' @ quoted ''a'' @ '':1}''"

definition sample_loads_closed :: loads where
  "sample_loads_closed = map_of [(sample_closed, JObject [(''a'', JInt 1)])]"

section \<open>ModelCaller\<close>

text \<open>Python's \<open>sub in s\<close> on strings.\<close>

fun py_in_str :: "string \<Rightarrow> string \<Rightarrow> bool" where
  "py_in_str sub [] = (sub = [])"
| "py_in_str sub (c # cs) = (prefix sub (c # cs) \<or> py_in_str sub cs)"

text \<open>What one request to the external model does: it returns a response with a text, a
  response without one, raises \<open>ResourceExhausted\<close> (with the seconds of its
  \<open>retry_delay\<close>, if it has any), or raises something else.\<close>

datatype reply =
    Text string
  | NoText
  | QuotaExceeded "int option"
  | Failed

datatype call_error = EmptyResponse | CallFailed | SleepRejected | RetriesExhausted

datatype attempt_result = Returned string | Quota "int option" | Raised call_error

datatype step = Called string | Slept int

text \<open>The body of the \<open>try\<close>, lines 271-282: an empty text raises \<open>RuntimeError\<close>, which
  the handler of line 294 catches like any other exception.\<close>

definition try_call :: "(nat \<Rightarrow> string \<Rightarrow> reply) \<Rightarrow> int \<Rightarrow> string \<Rightarrow> attempt_result" where
  "try_call generate attempt curr_model =
     (case generate (nat attempt) curr_model of
        Text t \<Rightarrow> if t = [] then Raised EmptyResponse else Returned t
      | NoText \<Rightarrow> Raised EmptyResponse
      | QuotaExceeded d \<Rightarrow> Quota d
      | Failed \<Rightarrow> Raised CallFailed)"

definition fallback_model :: "string \<Rightarrow> string" where
  "fallback_model curr_model =
     (if py_in_str ''pro'' curr_model then ''gemini-1.5-flash'' else curr_model)"

text \<open>The \<open>while\<close> loop of lines 269-300, with the log of the requests and sleeps made so
  far. \<open>time.sleep\<close> raises on a negative length, and nothing catches that.\<close>

function retry_loop ::
  "(nat \<Rightarrow> string \<Rightarrow> reply) \<Rightarrow> int \<Rightarrow> int \<Rightarrow> string \<Rightarrow> step list
     \<Rightarrow> step list \<times> (call_error + string)" where
  "retry_loop generate max_retries attempt curr_model trace =
     (if attempt \<le> max_retries then
        (case try_call generate attempt curr_model of
           Returned t \<Rightarrow> (trace @ [Called curr_model], Inr t)
         | Quota d \<Rightarrow>
             (let delay = (case d of None \<Rightarrow> 20 | Some x \<Rightarrow> if x = 0 then 20 else x);
                  pause = min delay 60
              in if pause < 0 then (trace @ [Called curr_model], Inl SleepRejected)
                 else retry_loop generate max_retries (attempt + 1) (fallback_model curr_model)
                        (trace @ [Called curr_model, Slept pause]))
         | Raised e \<Rightarrow>
             if py_in_str ''pro'' curr_model
             then retry_loop generate max_retries (attempt + 1) ''gemini-1.5-flash''
                    (trace @ [Called curr_model])
             else (trace @ [Called curr_model], Inl e))
      else (trace, Inl RetriesExhausted))"
  by pat_completeness auto
termination
  by (relation "measure (\<lambda>(generate, max_retries, attempt, curr_model, trace).
        nat (max_retries + 1 - attempt))") auto

declare retry_loop.simps [simp del]

definition call_gemini_json_with_retry ::
  "(nat \<Rightarrow> string \<Rightarrow> reply) \<Rightarrow> string \<Rightarrow> int \<Rightarrow> step list \<times> (call_error + string)" where
  "call_gemini_json_with_retry generate model_name max_retries =
     retry_loop generate max_retries 0 model_name []"

text \<open>The model names of the requests of a log, in order.\<close>

fun models_called :: "step list \<Rightarrow> string list" where
  "models_called [] = []"
| "models_called (Called m # rest) = m # models_called rest"
| "models_called (Slept d # rest) = models_called rest"

text \<open>A sample run of the external model: quota exceeded twice, with a suggested delay
  of 5 seconds and with none, then a text.\<close>

definition sample_generate :: "nat \<Rightarrow> string \<Rightarrow> reply" where
  "sample_generate k m =
     (if k = 0 then QuotaExceeded (Some 5) else if k = 1 then QuotaExceeded None else Text ''ok'')"

section \<open>Properties of \<open>shrink_events\<close>\<close>

lemma set_py_slice_to: "set (py_slice_to xs k) \<subseteq> set xs"
  by (simp add: py_slice_to_def set_take_subset)

lemma set_py_slice_from: "set (py_slice_from xs s) \<subseteq> set xs"
  by (simp add: py_slice_from_def set_drop_subset)

lemma set_dedup_loop: "set (dedup_loop es seen uniq) \<subseteq> set es \<union> set uniq"
  by (induction es seen uniq rule: dedup_loop.induct) (auto simp: Let_def)

text \<open>
  C8. Every element of the output of \<open>shrink_events\<close> is an element of its input: the
  function selects, de-duplicates, reorders and truncates events and builds no new one.
\<close>

theorem shrink_events_subset: "set (shrink_events events max_items) \<subseteq> set events"
proof (cases "int (length events) \<le> max_items")
  case True
  then show ?thesis by (simp add: shrink_events_def)
next
  case False
  let ?merged = "py_slice_to events (max_items div 2) @ filter protected_action events
                 @ py_slice_from events ((- max_items) div 2)"
  have m: "set ?merged \<subseteq> set events"
    using set_py_slice_to [of events "max_items div 2"]
      set_py_slice_from [of events "(- max_items) div 2"] by auto
  have "set (dedup_loop ?merged {} []) \<subseteq> set ?merged"
    using set_dedup_loop [of ?merged "{}" "[]"] by simp
  with m have "set (dedup_loop ?merged {} []) \<subseteq> set events"
    by blast
  then have u: "set (sort_key ts_or_Z (dedup_loop ?merged {} [])) \<subseteq> set events"
    by simp
  have "set (shrink_events events max_items)
        \<subseteq> set (sort_key ts_or_Z (dedup_loop ?merged {} []))"
    using False set_py_slice_to [of "sort_key ts_or_Z (dedup_loop ?merged {} [])" max_items]
    by (simp add: shrink_events_def Let_def)
  with u show ?thesis by blast
qed

lemma dedup_loop_first:
  "dedup_loop es seen uniq
     = uniq @ dedup_first event_key (filter (\<lambda>e. event_key e \<notin> seen) es)"
proof (induction es arbitrary: seen uniq)
  case Nil
  then show ?case by simp
next
  case (Cons e es)
  show ?case
    by (simp add: Cons.IH Let_def conj_commute)
qed

lemma set_dedup_first: "k ` set (dedup_first k xs) = k ` set xs"
proof (induction k xs rule: dedup_first.induct)
  case (1 k)
  then show ?case by simp
next
  case (2 k x xs)
  then show ?case by auto
qed

lemma length_py_slice_to: "0 \<le> k \<Longrightarrow> int (length (py_slice_to xs k)) \<le> k"
  by (simp add: py_slice_to_def)

lemma shrink_events_length: "0 \<le> m \<Longrightarrow> int (length (shrink_events events m)) \<le> m"
  by (simp add: shrink_events_def Let_def length_py_slice_to)

lemma insort_key_cong:
  "\<forall>y\<in>set ys. (f x \<le> f y) = (g x \<le> g y) \<Longrightarrow> insort_key f x ys = insort_key g x ys"
  by (induction ys) auto

lemma sort_key_cong_order:
  "\<forall>x\<in>set xs. \<forall>y\<in>set xs. (f x \<le> f y) = (g x \<le> g y) \<Longrightarrow> sort_key f xs = sort_key g xs"
proof (induction xs)
  case Nil
  then show ?case by simp
next
  case (Cons x xs)
  then have ih: "sort_key f xs = sort_key g xs" by simp
  have "insort_key f x (sort_key g xs) = insort_key g x (sort_key g xs)"
    using Cons.prems by (intro insort_key_cong) simp
  with ih show ?case by simp
qed

lemma ts_keys_agree:
  assumes "ts_before_Z a" "ts_before_Z b"
  shows "(ts_or_Z a \<le> ts_or_Z b) = (ts_absent_last a \<le> ts_absent_last b)"
  using assms
  by (auto simp: ts_before_Z_def ts_or_Z_def ts_absent_last_def split: option.splits)

lemmas shrink_eval = shrink_events_def shrink_reference_def py_slice_to_def py_slice_from_def
  protected_action_def ev_def ev_no_ts_def event_key_def ts_or_Z_def ts_absent_last_def
  ts_before_Z_def Let_def

text \<open>
  C2, as stated: every protected event of the input appears in the output. It fails where
  the output is cut to \<open>max_items\<close>: of three plants and \<open>max_items = 2\<close> the third is
  dropped. It also fails where an earlier event has the same key: of three plants that differ
  only in \<open>meta\<close>, the first alone is kept.
\<close>

theorem shrink_events_drops_protected:
  "protected_action (ev ''3'' ''plant'')
   \<and> ev ''3'' ''plant'' \<in> set [ev ''1'' ''plant'', ev ''2'' ''plant'', ev ''3'' ''plant'']
   \<and> ev ''3'' ''plant''
       \<notin> set (shrink_events [ev ''1'' ''plant'', ev ''2'' ''plant'', ev ''3'' ''plant''] 2)
   \<and> protected_action ((ev ''1'' ''plant'')\<lparr>meta := JInt 2\<rparr>)
   \<and> (ev ''1'' ''plant'')\<lparr>meta := JInt 2\<rparr>
       \<in> set [ev ''1'' ''plant'', (ev ''1'' ''plant'')\<lparr>meta := JInt 2\<rparr>,
              (ev ''1'' ''plant'')\<lparr>meta := JInt 3\<rparr>]
   \<and> shrink_events [ev ''1'' ''plant'', (ev ''1'' ''plant'')\<lparr>meta := JInt 2\<rparr>,
              (ev ''1'' ''plant'')\<lparr>meta := JInt 3\<rparr>] 2
       = [ev ''1'' ''plant'']"
  by (simp add: shrink_eval)

lemma find_filter_implied:
  "(\<And>y. P y \<Longrightarrow> Q y) \<Longrightarrow> find P (filter Q xs) = find P xs"
  by (induction xs) auto

lemma find_append_cases:
  "find P (xs @ ys) = (case find P xs of Some a \<Rightarrow> Some a | None \<Rightarrow> find P ys)"
  by (induction xs) auto

lemma find_take_Some: "find P (take n xs) = Some a \<Longrightarrow> find P xs = Some a"
  using find_append_cases [of P "take n xs" "drop n xs"] by simp

lemma find_in_dedup_first:
  "find (\<lambda>x. k x = c) xs = Some a \<Longrightarrow> a \<in> set (dedup_first k xs)"
proof (induction k xs rule: dedup_first.induct)
  case (1 k)
  then show ?case by simp
next
  case (2 k x xs)
  show ?case
  proof (cases "k x = c")
    case True
    with "2.prems" show ?thesis by simp
  next
    case False
    with "2.prems" have "find (\<lambda>x. k x = c) xs = Some a" by simp
    moreover have "find (\<lambda>y. k y = c) (filter (\<lambda>y. k y \<noteq> k x) xs) = find (\<lambda>y. k y = c) xs"
      using False by (intro find_filter_implied) auto
    ultimately show ?thesis using "2.IH" by simp
  qed
qed

lemma py_slice_to_take: "\<exists>n. py_slice_to xs k = take n xs"
  by (auto simp: py_slice_to_def)

lemma sorted_take_drop:
  "sorted (map f xs) \<Longrightarrow> a \<in> set (take n xs) \<Longrightarrow> b \<in> set (drop n xs) \<Longrightarrow> f a \<le> f b"
proof -
  assume s: "sorted (map f xs)" and a: "a \<in> set (take n xs)" and b: "b \<in> set (drop n xs)"
  have "map f xs = map f (take n xs) @ map f (drop n xs)"
    by (simp flip: map_append)
  with s have "sorted (map f (take n xs) @ map f (drop n xs))" by simp
  then have "\<forall>x\<in>set (map f (take n xs)). \<forall>y\<in>set (map f (drop n xs)). x \<le> y"
    by (simp add: sorted_append)
  with a b show ?thesis by auto
qed

lemma same_key_protected:
  "event_key y = event_key e \<Longrightarrow> protected_action e \<Longrightarrow> protected_action y"
  by (simp add: event_key_def protected_action_def)

lemma same_key_ts: "event_key y = event_key e \<Longrightarrow> ts_or_Z y = ts_or_Z e"
  by (simp add: event_key_def ts_or_Z_def)

text \<open>
  C2, amended. For a non-negative \<open>max_items\<close> and a protected event of the input, the
  first event of the input with the same key \<open>(ts, actor, action, target)\<close>, which is the
  event itself unless an earlier one shares its key, is in the output, unless the input is
  longer than \<open>max_items\<close>, the output has exactly \<open>max_items\<close> events and none of them
  sorts after that event.
\<close>

theorem shrink_events_keeps_first_protected:
  assumes m0: "0 \<le> m" and mem: "e \<in> set events" and prot: "protected_action e"
  shows "\<exists>e'. find (\<lambda>x. event_key x = event_key e) events = Some e'
           \<and> (e' \<in> set (shrink_events events m)
               \<or> (int (length events) > m \<and> int (length (shrink_events events m)) = m
                   \<and> (\<forall>x\<in>set (shrink_events events m). ts_or_Z x \<le> ts_or_Z e)))"
proof -
  let ?P = "\<lambda>x. event_key x = event_key e"
  from mem obtain e' where f: "find ?P events = Some e'"
    by (cases "find ?P events") (auto simp: find_None_iff)
  then have e': "e' \<in> set events" "event_key e' = event_key e"
    by (auto simp: find_Some_iff)
  show ?thesis
  proof (cases "int (length events) \<le> m")
    case True
    with f e' show ?thesis by (simp add: shrink_events_def)
  next
    case False
    obtain n where hd: "py_slice_to events (m div 2) = take n events"
      using py_slice_to_take by blast
    let ?keep = "filter protected_action events"
    let ?tail = "py_slice_from events ((- m) div 2)"
    let ?merged = "take n events @ ?keep @ ?tail"
    let ?u = "sort_key ts_or_Z (dedup_loop ?merged {} [])"
    have out: "shrink_events events m = take (nat m) ?u"
      using False m0 by (simp add: shrink_events_def Let_def py_slice_to_def hd [symmetric])
    have keep: "find ?P ?keep = Some e'"
      using f prot find_filter_implied [of ?P protected_action events]
      by (simp add: same_key_protected)
    have "find ?P ?merged = Some e'"
    proof (cases "find ?P (take n events)")
      case None
      with keep show ?thesis by (simp add: find_append_cases)
    next
      case (Some a)
      with find_take_Some [of ?P n events a] f have "a = e'" by simp
      with Some show ?thesis by (simp add: find_append_cases)
    qed
    then have "e' \<in> set (dedup_first event_key ?merged)"
      by (rule find_in_dedup_first)
    then have u: "e' \<in> set ?u" by (simp add: dedup_loop_first)
    have "set ?u = set (take (nat m) ?u) \<union> set (drop (nat m) ?u)"
      by (metis append_take_drop_id set_append)
    with u consider "e' \<in> set (take (nat m) ?u)" | "e' \<in> set (drop (nat m) ?u)" by blast
    then show ?thesis
    proof cases
      case 1
      with f out show ?thesis by simp
    next
      case 2
      then have "drop (nat m) ?u \<noteq> []" by auto
      then have len: "int (length (take (nat m) ?u)) = m" using m0 by simp
      have srt: "sorted (map ts_or_Z ?u)" by (rule sorted_sort_key)
      have "\<forall>x\<in>set (take (nat m) ?u). ts_or_Z x \<le> ts_or_Z e'"
        using sorted_take_drop [OF srt _ 2] by blast
      then have "\<forall>x\<in>set (take (nat m) ?u). ts_or_Z x \<le> ts_or_Z e"
        using same_key_ts [OF e'(2)] by simp
      with f len False show ?thesis unfolding out by simp
    qed
  qed
qed

theorem shrink_events_keeps_first_protected_witness:
  "(0::int) \<le> 4
   \<and> ev ''3'' ''plant''
       \<in> set [ev ''1'' ''kill'', ev ''2'' ''kill'', ev ''3'' ''plant'', ev ''4'' ''kill'',
              ev ''5'' ''match_end'']
   \<and> protected_action (ev ''3'' ''plant'')
   \<and> find (\<lambda>x. event_key x = event_key (ev ''3'' ''plant''))
        [ev ''1'' ''kill'', ev ''2'' ''kill'', ev ''3'' ''plant'', ev ''4'' ''kill'',
         ev ''5'' ''match_end'']
       = Some (ev ''3'' ''plant'')
   \<and> shrink_events [ev ''1'' ''kill'', ev ''2'' ''kill'', ev ''3'' ''plant'', ev ''4'' ''kill'',
         ev ''5'' ''match_end''] 4
       = [ev ''1'' ''kill'', ev ''2'' ''kill'', ev ''3'' ''plant'', ev ''4'' ''kill'']"
  using shrink_events_keeps_first_protected
    [of 4 "ev ''3'' ''plant''" "[ev ''1'' ''kill'', ev ''2'' ''kill'', ev ''3'' ''plant'',
       ev ''4'' ''kill'', ev ''5'' ''match_end'']"]
  by (simp add: shrink_eval)

text \<open>
  C3, as stated: on a list longer than \<open>max_items\<close>, \<open>shrink_events\<close> equals the reference
  computation, which puts an absent \<open>ts\<close> last. The code sorts an absent \<open>ts\<close> as the
  string \<open>"Z"\<close>, before a \<open>ts\<close> such as \<open>"b"\<close>.
\<close>

theorem shrink_events_absent_ts_not_last:
  "shrink_events [ev_no_ts ''separator'', ev ''a'' ''kill'', ev ''b'' ''kill''] 2
     = [ev_no_ts ''separator'', ev ''b'' ''kill'']
   \<and> shrink_reference [ev_no_ts ''separator'', ev ''a'' ''kill'', ev ''b'' ''kill''] 2
     = [ev ''b'' ''kill'', ev_no_ts ''separator'']"
  by (simp add: shrink_eval)

text \<open>
  For an odd \<open>max_items\<close> the two differ as well: \<open>-max_items//2\<close> is
  \<open>(-max_items)//2\<close>, so the tail of the code has one event more than its head.
\<close>

lemma shrink_events_odd_tail:
  "shrink_events [ev ''1'' ''kill'', ev ''2'' ''kill'', ev ''3'' ''kill'', ev ''4'' ''kill''] 3
     = [ev ''1'' ''kill'', ev ''3'' ''kill'', ev ''4'' ''kill'']
   \<and> shrink_reference [ev ''1'' ''kill'', ev ''2'' ''kill'', ev ''3'' ''kill'', ev ''4'' ''kill''] 3
     = [ev ''1'' ''kill'', ev ''4'' ''kill'']"
  by (simp add: shrink_eval)

text \<open>
  C3, amended. For a non-negative even \<open>max_items\<close> and a longer event list whose
  timestamps, where present, are not empty and ordered before \<open>"Z"\<close> (as ISO-8601
  timestamps are), \<open>shrink_events\<close> equals the reference computation: first
  \<open>max_items/2\<close> events, protected events, last \<open>max_items/2\<close> events, first occurrence
  per key, ascending by \<open>ts\<close> with an absent \<open>ts\<close> last, cut to \<open>max_items\<close>.
\<close>

theorem shrink_events_refines_reference:
  assumes len: "int (length events) > m" and m0: "0 \<le> m" and ev: "even m"
    and iso: "list_all ts_before_Z events"
  shows "shrink_events events m = shrink_reference events m"
proof (cases "m = 0")
  case True
  then show ?thesis by (simp add: shrink_events_def shrink_reference_def py_slice_to_def Let_def)
next
  case False
  with m0 ev have pos: "0 < m div 2" by presburger
  let ?h = "nat (m div 2)"
  have neg: "(- m) div 2 = - (m div 2)" using ev by presburger
  have hd: "py_slice_to events (m div 2) = take ?h events"
    using pos by (simp add: py_slice_to_def)
  have "nat (int (length events) - m div 2) = length events - ?h"
    using pos by linarith
  then have tl: "py_slice_from events ((- m) div 2) = drop (length events - ?h) events"
    using pos by (simp add: py_slice_from_def neg)
  let ?merged = "take ?h events @ filter protected_action events @ drop (length events - ?h) events"
  let ?u = "dedup_first event_key ?merged"
  have dd: "dedup_loop ?merged {} [] = ?u"
    by (simp add: dedup_loop_first)
  have "set ?merged \<subseteq> set events"
    using set_take_subset [of ?h events] set_drop_subset [of "length events - ?h" events] by auto
  moreover have "set ?u \<subseteq> set ?merged"
    using set_dedup_loop [of ?merged "{}" "[]"] by (simp add: dd)
  ultimately have "set ?u \<subseteq> set events" by blast
  with iso have "\<forall>a\<in>set ?u. ts_before_Z a"
    by (auto simp: list_all_iff)
  then have "\<forall>a\<in>set ?u. \<forall>b\<in>set ?u.
      (ts_or_Z a \<le> ts_or_Z b) = (ts_absent_last a \<le> ts_absent_last b)"
    by (simp add: ts_keys_agree)
  then have srt: "sort_key ts_or_Z ?u = sort_key ts_absent_last ?u"
    by (rule sort_key_cong_order)
  have "shrink_events events m = py_slice_to (sort_key ts_or_Z ?u) m"
    using len by (simp add: shrink_events_def Let_def hd tl dd)
  also have "\<dots> = take (nat m) (sort_key ts_absent_last ?u)"
    using m0 by (simp add: py_slice_to_def srt)
  also have "\<dots> = shrink_reference events m"
    by (simp add: shrink_reference_def Let_def)
  finally show ?thesis .
qed

theorem shrink_events_refines_reference_witness:
  "int (length [ev ''1'' ''plant'', ev_no_ts ''kill'', ev ''3'' ''kill'', ev_no_ts ''separator'']) > 2
   \<and> (0::int) \<le> 2 \<and> even (2::int)
   \<and> list_all ts_before_Z [ev ''1'' ''plant'', ev_no_ts ''kill'', ev ''3'' ''kill'', ev_no_ts ''separator'']
   \<and> shrink_events [ev ''1'' ''plant'', ev_no_ts ''kill'', ev ''3'' ''kill'', ev_no_ts ''separator''] 2
     = shrink_reference [ev ''1'' ''plant'', ev_no_ts ''kill'', ev ''3'' ''kill'', ev_no_ts ''separator''] 2
   \<and> shrink_reference [ev ''1'' ''plant'', ev_no_ts ''kill'', ev ''3'' ''kill'', ev_no_ts ''separator''] 2
     = [ev ''1'' ''plant'', ev_no_ts ''separator'']"
  using shrink_events_refines_reference
    [of 2 "[ev ''1'' ''plant'', ev_no_ts ''kill'', ev ''3'' ''kill'', ev_no_ts ''separator'']"]
  by (simp add: shrink_eval)

text \<open>
  C7, as stated: \<open>shrink_events\<close> is idempotent for every \<open>m\<close>. A negative \<open>m\<close> is below
  every length, so each application cuts again: \<open>uniq[:-1]\<close> drops the last event.
\<close>

theorem shrink_events_negative_not_idempotent:
  "shrink_events (shrink_events [ev ''1'' ''kill'', ev ''2'' ''kill'', ev ''3'' ''kill''] (- 1)) (- 1)
     \<noteq> shrink_events [ev ''1'' ''kill'', ev ''2'' ''kill'', ev ''3'' ''kill''] (- 1)"
  by (simp add: shrink_eval)

text \<open>
  C7, amended. For every event list \<open>E\<close> and every non-negative \<open>m\<close>,
  \<open>shrink_events (shrink_events E m) m = shrink_events E m\<close>.
\<close>

theorem shrink_events_idempotent:
  "0 \<le> m \<Longrightarrow> shrink_events (shrink_events E m) m = shrink_events E m"
  using shrink_events_length [of m E] by (subst shrink_events_def) simp

theorem shrink_events_idempotent_witness:
  "(0::int) \<le> 2 \<and>
   shrink_events (shrink_events [ev ''1'' ''kill'', ev ''2'' ''kill'', ev ''3'' ''kill''] 2) 2
     = [ev ''1'' ''kill'', ev ''3'' ''kill'']"
  using shrink_events_idempotent [of 2 "[ev ''1'' ''kill'', ev ''2'' ''kill'', ev ''3'' ''kill'']"]
  by (simp add: shrink_eval)

section \<open>Properties of the repair\<close>

lemmas sample_eval = sample_loads_def sample_fragment_def quoted_def dquote_def

lemmas extract_eval = extract_top_level_json_def py_strip_def py_isspace_def
  strip_leading_fence_def strip_trailing_fence_def suffix_def Let_def

lemmas find_all_eval = find_all_top_level_json_def defence_def py_strip_def py_isspace_def
  depth_after_def remove_fences.simps replace_ticks.simps Let_def

lemmas score_eval = scoreAndPick_def candidate_score_def dict_has_def expected_keys_def Let_def

text \<open>
  C4, as stated: the repair does its steps on the fragment it is given. The code first
  cuts the first balanced block out of its argument: given a complete object followed by
  an open string, it returns the parse of the object, where the steps on the whole
  argument append a quote and fail.
\<close>

theorem naive_json_repair_not_on_passed_fragment:
  "naive_json_repair sample_loads_closed (sample_closed @ '' '' @ dquote # ''x'')
     = JObject [(''a'', JInt 1)]
   \<and> repair_reference sample_loads_closed (sample_closed @ '' '' @ dquote # ''x'') = JNull"
  by (simp add: naive_json_repair_def repair_reference_def extract_eval sample_eval
      sample_closed_def sample_loads_closed_def balance_def)


text \<open>
  C4, amended. \<open>naive_json_repair\<close> takes as its fragment the stripped result of
  \<open>extract_top_level_json\<close> on its argument. It fails, without parsing, when that
  fragment is empty; otherwise it does to it what the repair of the specification says: one
  closing quote if the count of quotes is odd, the two counts of missing closers over the
  fragment so far, the parse with brackets first, else the parse with braces first, else
  failure.
\<close>

theorem naive_json_repair_on_extracted:
  "naive_json_repair loads trunc
     = (if py_strip (extract_top_level_json trunc) = [] then JNull
        else repair_reference loads (py_strip (extract_top_level_json trunc)))"
proof (cases "py_strip (extract_top_level_json trunc) = []")
  case True
  then show ?thesis
    by (simp add: naive_json_repair_def)
next
  case False
  have "odd n = (n mod 2 = 1)" for n :: nat
    by presburger
  with False show ?thesis
    unfolding naive_json_repair_def repair_reference_def balance_def Let_def
    by (simp only: if_False)
qed

theorem naive_json_repair_on_extracted_witness:
  "py_strip (extract_top_level_json ('' '' @ sample_fragment)) = sample_fragment
   \<and> naive_json_repair sample_loads ('' '' @ sample_fragment)
       = repair_reference sample_loads sample_fragment
   \<and> repair_reference sample_loads sample_fragment = JObject [(''a'', JString ''b'')]"
proof -
  have f: "py_strip (extract_top_level_json ('' '' @ sample_fragment)) = sample_fragment"
    by (simp add: extract_eval sample_eval)
  have v: "repair_reference sample_loads sample_fragment = JObject [(''a'', JString ''b'')]"
    by (simp add: repair_reference_def sample_eval Let_def)
  have n: "sample_fragment \<noteq> []" by (simp add: sample_eval)
  from naive_json_repair_on_extracted [of sample_loads "'' '' @ sample_fragment"] f v n
  show ?thesis by simp
qed

text \<open>
  C9. A successful result of \<open>naive_json_repair\<close> is the parse of the extracted, stripped
  fragment followed by at most one double quote and then only \<open>]\<close> and \<open>}\<close>: the
  fragment itself is a prefix of the parsed text, unchanged.
\<close>

theorem naive_json_repair_appends_only:
  assumes "naive_json_repair loads trunc \<noteq> JNull"
  shows "\<exists>q closers. (q = [] \<or> q = [dquote]) \<and> set closers \<subseteq> {CHR '']'', CHR ''}''}
           \<and> loads (py_strip (extract_top_level_json trunc) @ q @ closers)
               = Some (naive_json_repair loads trunc)"
proof -
  let ?f = "py_strip (extract_top_level_json trunc)"
  define q where "q = (if count_list ?f dquote mod 2 = 1 then [dquote] else [])"
  define cand where "cand = ?f @ q"
  define nb where "nb = nat (balance cand (CHR ''{'') (CHR ''}''))"
  define nk where "nk = nat (balance cand (CHR ''['') (CHR '']''))"
  have ne: "?f \<noteq> []" using assms by (auto simp: naive_json_repair_def)
  have c: "(if count_list ?f dquote mod 2 = 1 then ?f @ [dquote] else ?f) = cand"
    by (simp add: cand_def q_def)
  have r: "naive_json_repair loads trunc =
        (case loads (cand @ replicate nk (CHR '']'') @ replicate nb (CHR ''}'')) of
           Some v \<Rightarrow> v
         | None \<Rightarrow> (case loads (cand @ replicate nb (CHR ''}'') @ replicate nk (CHR '']'')) of
                      Some v \<Rightarrow> v | None \<Rightarrow> JNull))"
    using ne unfolding naive_json_repair_def Let_def c nb_def nk_def by simp
  have qq: "q = [] \<or> q = [dquote]" by (simp add: q_def)
  show ?thesis
  proof (cases "loads (cand @ replicate nk (CHR '']'') @ replicate nb (CHR ''}''))")
    case (Some v)
    then have "loads (?f @ q @ (replicate nk (CHR '']'') @ replicate nb (CHR ''}'')))
               = Some (naive_json_repair loads trunc)"
      by (simp add: r cand_def)
    moreover have "set (replicate nk (CHR '']'') @ replicate nb (CHR ''}'')) \<subseteq> {CHR '']'', CHR ''}''}"
      by auto
    ultimately show ?thesis using qq by blast
  next
    case None
    note n1 = this
    show ?thesis
    proof (cases "loads (cand @ replicate nb (CHR ''}'') @ replicate nk (CHR '']''))")
      case None
      with n1 assms show ?thesis by (simp add: r)
    next
      case (Some v)
      with n1 have "loads (?f @ q @ (replicate nb (CHR ''}'') @ replicate nk (CHR '']'')))
               = Some (naive_json_repair loads trunc)"
        by (simp add: r cand_def)
      moreover have "set (replicate nb (CHR ''}'') @ replicate nk (CHR '']'')) \<subseteq> {CHR '']'', CHR ''}''}"
        by auto
      ultimately show ?thesis using qq by blast
    qed
  qed
qed

theorem naive_json_repair_appends_only_witness:
  "naive_json_repair sample_loads ('' '' @ sample_fragment) \<noteq> JNull
   \<and> (\<exists>q closers. (q = [] \<or> q = [dquote]) \<and> set closers \<subseteq> {CHR '']'', CHR ''}''}
        \<and> sample_loads (py_strip (extract_top_level_json ('' '' @ sample_fragment)) @ q @ closers)
            = Some (naive_json_repair sample_loads ('' '' @ sample_fragment)))"
proof -
  have n: "naive_json_repair sample_loads ('' '' @ sample_fragment) \<noteq> JNull"
    by (simp add: naive_json_repair_def extract_eval sample_eval balance_def)
  from naive_json_repair_appends_only [OF n] n show ?thesis by blast
qed

section \<open>Properties of the candidate scoring and of the ladder\<close>

lemma candidate_score_nonneg: "0 \<le> candidate_score obj"
  by (simp add: candidate_score_def Let_def split: json.splits option.splits)

lemma parsed_candidates_Cons:
  "parsed_candidates loads (c # cs) =
     (case loads c of None \<Rightarrow> parsed_candidates loads cs
      | Some obj \<Rightarrow> wrap_if_needed obj # parsed_candidates loads cs)"
  by (simp add: parsed_candidates_def map_filter_simps split: option.splits)

lemma parsed_candidates_Nil: "parsed_candidates loads [] = []"
  by (simp add: parsed_candidates_def map_filter_simps)

lemma pick_loop_keeps:
  "\<forall>p\<in>set (parsed_candidates loads cands). candidate_score p \<le> s
   \<Longrightarrow> pick_loop loads cands (b, s) = (b, s)"
proof (induction cands)
  case Nil
  then show ?case by simp
next
  case (Cons c cs)
  then show ?case
    by (cases "loads c") (auto simp: parsed_candidates_Cons Let_def)
qed

lemma pick_loop_first_max:
  assumes "parsed_candidates loads cands = pre @ b # post"
    and "\<forall>p\<in>set pre. candidate_score p < candidate_score b"
    and "\<forall>p\<in>set post. candidate_score p \<le> candidate_score b"
    and "s0 < candidate_score b"
  shows "pick_loop loads cands (b0, s0) = (b, candidate_score b)"
  using assms
proof (induction cands arbitrary: pre b0 s0)
  case Nil
  then show ?case by (simp add: parsed_candidates_Nil)
next
  case (Cons c cs)
  show ?case
  proof (cases "loads c")
    case None
    with Cons.prems have "parsed_candidates loads cs = pre @ b # post"
      by (simp add: parsed_candidates_Cons)
    from Cons.IH [OF this Cons.prems(2,3,4)] None show ?thesis by simp
  next
    case (Some obj)
    with Cons.prems have eq: "wrap_if_needed obj # parsed_candidates loads cs = pre @ b # post"
      by (simp add: parsed_candidates_Cons)
    show ?thesis
    proof (cases pre)
      case Nil
      with eq have b: "wrap_if_needed obj = b" and rest: "parsed_candidates loads cs = post"
        by simp_all
      have "pick_loop loads cs (b, candidate_score b) = (b, candidate_score b)"
        using Cons.prems(3) rest by (intro pick_loop_keeps) simp
      with Some b Cons.prems(4) show ?thesis by (simp add: Let_def)
    next
      case (Cons p pre')
      with eq have p: "wrap_if_needed obj = p"
        and rest: "parsed_candidates loads cs = pre' @ b # post"
        by simp_all
      have lt: "candidate_score p < candidate_score b"
        using Cons.prems(2) Cons by simp
      have pre': "\<forall>q\<in>set pre'. candidate_score q < candidate_score b"
        using Cons.prems(2) Cons by simp
      show ?thesis
      proof (cases "candidate_score p > s0")
        case True
        with Some p Cons.IH [OF rest pre' Cons.prems(3) lt, of p]
        show ?thesis by (simp add: Let_def)
      next
        case False
        with Some p Cons.IH [OF rest pre' Cons.prems(3) Cons.prems(4), of b0]
        show ?thesis by (simp add: Let_def)
      qed
    qed
  qed
qed

text \<open>Every non-empty list has a first element that attains the maximum, so the
  characterisation of stage 3 below covers every candidate list.\<close>

lemma first_max_exists:
  "xs \<noteq> [] \<Longrightarrow> \<exists>pre b post. xs = pre @ b # post
      \<and> (\<forall>p\<in>set pre. f p < (f b :: int)) \<and> (\<forall>p\<in>set post. f p \<le> f b)"
proof (induction xs)
  case Nil
  then show ?case by simp
next
  case (Cons x xs)
  show ?case
  proof (cases "\<forall>p\<in>set xs. f p \<le> f x")
    case True
    then have "x # xs = [] @ x # xs \<and> (\<forall>p\<in>set []. f p < f x) \<and> (\<forall>p\<in>set xs. f p \<le> f x)"
      by simp
    then show ?thesis by blast
  next
    case False
    then have "xs \<noteq> []" by auto
    from Cons.IH [OF this] obtain pre b post where
      s: "xs = pre @ b # post" "\<forall>p\<in>set pre. f p < f b" "\<forall>p\<in>set post. f p \<le> f b"
      by blast
    from False s have "f x < f b" by (auto simp: not_le)
    with s have "x # xs = (x # pre) @ b # post \<and> (\<forall>p\<in>set (x # pre). f p < f b)
        \<and> (\<forall>p\<in>set post. f p \<le> f b)" by simp
    then show ?thesis by blast
  qed
qed

lemma pick_loop_from_parsed:
  "fst (pick_loop loads cands (b0, s0)) \<in> insert b0 (set (parsed_candidates loads cands))"
proof (induction cands arbitrary: b0 s0)
  case Nil
  then show ?case by simp
next
  case (Cons c cs)
  show ?case
  proof (cases "loads c")
    case None
    with Cons.IH [of b0 s0] show ?thesis by (simp add: parsed_candidates_Cons)
  next
    case (Some obj)
    with Cons.IH [of b0 s0] Cons.IH [of "wrap_if_needed obj" "candidate_score (wrap_if_needed obj)"]
    show ?thesis by (auto simp: parsed_candidates_Cons Let_def)
  qed
qed

lemma set_parsed_candidates:
  "set (parsed_candidates loads cands)
     = {wrap_if_needed obj | obj c. c \<in> set cands \<and> loads c = Some obj}"
proof (induction cands)
  case Nil
  then show ?case by (simp add: parsed_candidates_Nil)
next
  case (Cons c cs)
  then show ?case
    by (cases "loads c") (auto simp: parsed_candidates_Cons)
qed

lemma has_json_wrap_if_needed: "has_json (wrap_if_needed obj) = json_or_report obj"
  by (cases obj) (auto simp: json_or_report_def dict_has_def)


text \<open>
  C6, as stated: stage 3 returns none only when no candidate parses. The stage returns
  \<open>best\<close> under \<open>if best:\<close>, and an empty object is falsy: the candidates of
  \<open>{x} {}\<close> are \<open>{x}\<close> and \<open>{}\<close>, the second parses, and nothing is returned.
\<close>

theorem scoreAndPick_empty_object_not_returned:
  "find_all_top_level_json ''{x} {}'' = [''{x}'', ''{}'']
   \<and> sample_loads ''{}'' = Some (JObject [])
   \<and> scoreAndPick sample_loads [''{x}'', ''{}''] = None"
  by (simp add: find_all_eval sample_eval score_eval)

text \<open>
  C6, amended. Stage 3 returns none when no candidate parses; when at least one parses, it
  returns the first parsed (and normalized) candidate that attains the maximum score if
  that candidate is truthy, and none if it is falsy. "First that attains the maximum": every
  parsed candidate before it scores less, every one after it scores at most as much.
\<close>

theorem scoreAndPick_first_max:
  "(parsed_candidates loads cands = [] \<longrightarrow> scoreAndPick loads cands = None)
   \<and> (parsed_candidates loads cands = pre @ b # post
        \<and> (\<forall>p\<in>set pre. candidate_score p < candidate_score b)
        \<and> (\<forall>p\<in>set post. candidate_score p \<le> candidate_score b)
      \<longrightarrow> scoreAndPick loads cands = (if truthy b then Some b else None))"
proof (intro conjI impI)
  assume "parsed_candidates loads cands = []"
  then have "pick_loop loads cands (JNull, - 1) = (JNull, - 1)"
    by (intro pick_loop_keeps) simp
  then show "scoreAndPick loads cands = None"
    by (simp add: scoreAndPick_def)
next
  assume a: "parsed_candidates loads cands = pre @ b # post
        \<and> (\<forall>p\<in>set pre. candidate_score p < candidate_score b)
        \<and> (\<forall>p\<in>set post. candidate_score p \<le> candidate_score b)"
  have "- 1 < candidate_score b"
    using candidate_score_nonneg [of b] by simp
  with a have "pick_loop loads cands (JNull, - 1) = (b, candidate_score b)"
    by (intro pick_loop_first_max [of loads cands pre b post]) simp_all
  then show "scoreAndPick loads cands = (if truthy b then Some b else None)"
    by (simp add: scoreAndPick_def)
qed

theorem scoreAndPick_first_max_witness:
  "parsed_candidates sample_loads
      [''{x}'', ''{'' @ quoted ''story'' @ '':1}'', ''{'' @ quoted ''json'' @ '':{}}'',
       ''{'' @ quoted ''json'' @ '':0}'']
     = [JObject [(''story'', JInt 1)]] @ JObject [(''json'', JObject [])]
         # [JObject [(''json'', JInt 0)]]
   \<and> candidate_score (JObject [(''story'', JInt 1)]) < candidate_score (JObject [(''json'', JObject [])])
   \<and> candidate_score (JObject [(''json'', JInt 0)]) \<le> candidate_score (JObject [(''json'', JObject [])])
   \<and> scoreAndPick sample_loads
      [''{x}'', ''{'' @ quoted ''story'' @ '':1}'', ''{'' @ quoted ''json'' @ '':{}}'',
       ''{'' @ quoted ''json'' @ '':0}'']
     = Some (JObject [(''json'', JObject [])])"
  using scoreAndPick_first_max [of sample_loads
      "[''{x}'', ''{'' @ quoted ''story'' @ '':1}'', ''{'' @ quoted ''json'' @ '':{}}'',
       ''{'' @ quoted ''json'' @ '':0}'']"
      "[JObject [(''story'', JInt 1)]]" "JObject [(''json'', JObject [])]"
      "[JObject [(''json'', JInt 0)]]"]
  by (simp add: parsed_candidates_def map_filter_simps sample_eval candidate_score_def
      dict_has_def expected_keys_def Let_def)

text \<open>
  C1, as stated: a result other than \<open>None\<close> contains the key \<open>json\<close>. Stage 1 returns
  whatever parses: \<open>{"a":"b"}\<close> comes back as it is.
\<close>

theorem try_parse_or_coerce_without_json:
  "try_parse_or_coerce sample_loads (sample_fragment @ dquote # ''}'')
     = JObject [(''a'', JString ''b'')]
   \<and> try_parse_or_coerce sample_loads (sample_fragment @ dquote # ''}'') \<noteq> JNull
   \<and> \<not> has_json (try_parse_or_coerce sample_loads (sample_fragment @ dquote # ''}''))"
  by (simp add: try_parse_or_coerce_def sample_eval dict_has_def expected_keys_def)


text \<open>
  C1, amended. A stage whose parse succeeds ends the ladder whether or not its result has
  the key \<open>json\<close>: if the raw text parses, the result is \<open>wrap_if_needed\<close> of that
  parse, else if the extracted block parses, of that one. A result other than \<open>None\<close> is
  \<open>wrap_if_needed\<close> of the parse of the raw text, of the extracted block or of a candidate
  of \<open>find_all_top_level_json\<close>, and then has the key \<open>json\<close> exactly when the parsed
  value is an object with the key \<open>json\<close> or with all four report fields; or it is what
  \<open>naive_json_repair\<close> returns.
\<close>

theorem try_parse_or_coerce_result:
  "(loads raw = Some obj \<longrightarrow> try_parse_or_coerce loads raw = wrap_if_needed obj)
   \<and> (loads raw = None \<and> loads (extract_top_level_json raw) = Some obj
        \<longrightarrow> try_parse_or_coerce loads raw = wrap_if_needed obj)
   \<and> (try_parse_or_coerce loads raw \<noteq> JNull \<longrightarrow>
        (\<exists>s v. s \<in> set (raw # extract_top_level_json raw # find_all_top_level_json raw)
            \<and> loads s = Some v \<and> try_parse_or_coerce loads raw = wrap_if_needed v
            \<and> has_json (try_parse_or_coerce loads raw) = json_or_report v)
        \<or> try_parse_or_coerce loads raw = naive_json_repair loads raw)"
proof (intro conjI impI)
  assume "loads raw = Some obj"
  then show "try_parse_or_coerce loads raw = wrap_if_needed obj"
    by (simp add: try_parse_or_coerce_def)
next
  assume "loads raw = None \<and> loads (extract_top_level_json raw) = Some obj"
  then show "try_parse_or_coerce loads raw = wrap_if_needed obj"
    by (simp add: try_parse_or_coerce_def)
next
  let ?r = "try_parse_or_coerce loads raw"
  let ?P = "\<lambda>s v. s \<in> set (raw # extract_top_level_json raw # find_all_top_level_json raw)
            \<and> loads s = Some v \<and> ?r = wrap_if_needed v \<and> has_json ?r = json_or_report v"
  show "(\<exists>s v. ?P s v) \<or> ?r = naive_json_repair loads raw"
  proof (cases "loads raw")
    case (Some v)
    then have "?P raw v"
      by (simp add: try_parse_or_coerce_def has_json_wrap_if_needed)
    then show ?thesis by blast
  next
    case None
    note n1 = this
    show ?thesis
    proof (cases "loads (extract_top_level_json raw)")
      case (Some v)
      with n1 have "?P (extract_top_level_json raw) v"
        by (simp add: try_parse_or_coerce_def has_json_wrap_if_needed)
      then show ?thesis by blast
    next
      case None
      note n2 = this
      show ?thesis
      proof (cases "scoreAndPick loads (find_all_top_level_json raw)")
        case None
        with n1 n2 show ?thesis by (simp add: try_parse_or_coerce_def)
      next
        case (Some best)
        with n1 n2 have r: "?r = best" by (simp add: try_parse_or_coerce_def)
        let ?cs = "find_all_top_level_json raw"
        from Some have b: "best = fst (pick_loop loads ?cs (JNull, - 1))" and t: "truthy best"
          by (auto simp: scoreAndPick_def Let_def split: if_splits)
        from t have "best \<noteq> JNull" by auto
        with b pick_loop_from_parsed [of loads ?cs JNull "- 1"]
        have "best \<in> set (parsed_candidates loads ?cs)" by auto
        then obtain v c where c: "c \<in> set ?cs" "loads c = Some v" "best = wrap_if_needed v"
          by (auto simp: set_parsed_candidates)
        then have "?P c v" by (simp add: r has_json_wrap_if_needed)
        then show ?thesis by blast
      qed
    qed
  qed
qed

theorem try_parse_or_coerce_result_witness:
  "sample_loads (sample_fragment @ dquote # ''}'') = Some (JObject [(''a'', JString ''b'')])
   \<and> try_parse_or_coerce sample_loads (sample_fragment @ dquote # ''}'') \<noteq> JNull
   \<and> try_parse_or_coerce sample_loads (sample_fragment @ dquote # ''}'')
       = wrap_if_needed (JObject [(''a'', JString ''b'')])"
  using try_parse_or_coerce_result
    [of sample_loads "sample_fragment @ dquote # ''}''" "JObject [(''a'', JString ''b'')]"]
  by (simp add: sample_eval dict_has_def expected_keys_def)


section \<open>Properties of the retry loop\<close>

lemma models_called_append: "models_called (xs @ ys) = models_called xs @ models_called ys"
  by (induction xs rule: models_called.induct) simp_all

lemma flash_not_pro: "\<not> py_in_str ''pro'' ''gemini-1.5-flash''"
  by simp

lemma fallback_model_idem: "fallback_model (fallback_model c) = fallback_model c"
  using flash_not_pro by (simp add: fallback_model_def)

lemma retry_loop_models:
  "\<exists>rest. models_called (fst (retry_loop generate max_retries attempt curr_model trace))
            = models_called trace @ rest
      \<and> (rest = [] \<or> (\<exists>k. rest = curr_model # replicate k (fallback_model curr_model)))"
proof (induction generate max_retries attempt curr_model trace rule: retry_loop.induct)
  case (1 generate max_retries attempt curr_model trace)
  let ?d = "fallback_model curr_model"
  have step: "\<exists>rest. models_called trace @ curr_model # r = models_called trace @ rest
        \<and> (rest = [] \<or> (\<exists>k. rest = curr_model # replicate k ?d))"
    if "r = [] \<or> (\<exists>k. r = ?d # replicate k ?d)" for r
  proof -
    from that have "\<exists>k. r = replicate k ?d"
      by (metis replicate_0 replicate_Suc)
    then show ?thesis by blast
  qed
  show ?case
  proof (cases "attempt \<le> max_retries")
    case False
    then show ?thesis by (subst retry_loop.simps) simp
  next
    case True
    show ?thesis
    proof (cases "try_call generate attempt curr_model")
      case (Returned t)
      with True step [of "[]"] show ?thesis
        by (subst retry_loop.simps) (simp add: models_called_append)
    next
      case (Quota d)
      define delay where "delay = (case d of None \<Rightarrow> 20 | Some x \<Rightarrow> if x = 0 then 20 else x)"
      define pause where "pause = min delay (60::int)"
      have pd: "(pause < 0) = (delay < 0)" by (auto simp: pause_def min_def)
      show ?thesis
      proof (cases "delay < 0")
        case True
        with \<open>attempt \<le> max_retries\<close> Quota step [of "[]"] show ?thesis
          by (subst retry_loop.simps) (simp add: models_called_append delay_def Let_def)
      next
        case False
        then have np: "\<not> pause < 0" by (simp add: pd)
        from "1.IH"(1) [OF \<open>attempt \<le> max_retries\<close> Quota delay_def pause_def np]
        obtain rest where
          r: "models_called (fst (retry_loop generate max_retries (attempt + 1) ?d
                (trace @ [Called curr_model, Slept pause])))
              = models_called (trace @ [Called curr_model, Slept pause]) @ rest"
          and k: "rest = [] \<or> (\<exists>k. rest = ?d # replicate k (fallback_model ?d))"
          by blast
        from k have "rest = [] \<or> (\<exists>k. rest = ?d # replicate k ?d)"
          by (simp add: fallback_model_idem)
        from step [OF this] r False \<open>attempt \<le> max_retries\<close> Quota show ?thesis
          by (subst retry_loop.simps) (simp add: models_called_append pause_def delay_def Let_def)
      qed
    next
      case (Raised e)
      show ?thesis
      proof (cases "py_in_str ''pro'' curr_model")
        case False
        with True Raised step [of "[]"] show ?thesis
          by (subst retry_loop.simps) (simp add: models_called_append)
      next
        case pro: True
        then have d: "?d = ''gemini-1.5-flash''" by (simp add: fallback_model_def)
        from "1.IH"(2) [OF True Raised pro]
        obtain rest where
          r: "models_called (fst (retry_loop generate max_retries (attempt + 1) ''gemini-1.5-flash''
                (trace @ [Called curr_model])))
              = models_called (trace @ [Called curr_model]) @ rest"
          and k: "rest = [] \<or> (\<exists>k. rest = ''gemini-1.5-flash''
                       # replicate k (fallback_model ''gemini-1.5-flash''))"
          by blast
        from k have "rest = [] \<or> (\<exists>k. rest = ?d # replicate k ?d)"
          using fallback_model_idem [of curr_model] by (simp add: d)
        from step [OF this] r pro True Raised show ?thesis
          by (subst retry_loop.simps) (simp add: models_called_append)
      qed
    qed
  qed
qed

lemma sample_call:
  "call_gemini_json_with_retry sample_generate ''gemini-1.5-pro'' 2
     = ([Called ''gemini-1.5-pro'', Slept 5, Called ''gemini-1.5-flash'', Slept 20,
         Called ''gemini-1.5-flash''], Inr ''ok'')"
  by (simp add: call_gemini_json_with_retry_def sample_generate_def try_call_def
      fallback_model_def retry_loop.simps)


text \<open>
  C5. Within one call of \<open>call_gemini_json_with_retry\<close> the first request uses the model
  name the caller gave, and once a request has used a model that is not of the pro tier, no
  later request of that call uses a pro-tier model.
\<close>

theorem call_gemini_tier_monotone:
  "(models_called (fst (call_gemini_json_with_retry generate model_name max_retries)) \<noteq> []
      \<longrightarrow> hd (models_called (fst (call_gemini_json_with_retry generate model_name max_retries)))
            = model_name)
   \<and> (\<forall>i j. i < j
        \<and> j < length (models_called (fst (call_gemini_json_with_retry generate model_name max_retries)))
        \<and> \<not> py_in_str ''pro''
             (models_called (fst (call_gemini_json_with_retry generate model_name max_retries)) ! i)
      \<longrightarrow> \<not> py_in_str ''pro''
             (models_called (fst (call_gemini_json_with_retry generate model_name max_retries)) ! j))"
proof -
  let ?tr = "models_called (fst (call_gemini_json_with_retry generate model_name max_retries))"
  let ?d = "fallback_model model_name"
  from retry_loop_models [of generate max_retries 0 model_name "[]"]
  have shape: "?tr = [] \<or> (\<exists>k. ?tr = model_name # replicate k ?d)"
    by (auto simp: call_gemini_json_with_retry_def)
  have mono: "\<not> py_in_str ''pro'' (?tr ! j)"
    if "i < j" "j < length ?tr" "\<not> py_in_str ''pro'' (?tr ! i)" for i j
  proof -
    from shape that(2) obtain k where k: "?tr = model_name # replicate k ?d" by auto
    from that(1) obtain j' where j': "j = Suc j'" by (cases j) auto
    with that(2) k have "?tr ! j = ?d" by simp
    moreover have "\<not> py_in_str ''pro'' ?d"
    proof (cases "py_in_str ''pro'' model_name")
      case True
      then show ?thesis using flash_not_pro by (simp add: fallback_model_def)
    next
      case False
      then show ?thesis by (simp add: fallback_model_def)
    qed
    ultimately show ?thesis by simp
  qed
  from shape have "?tr \<noteq> [] \<longrightarrow> hd ?tr = model_name" by auto
  with mono show ?thesis by blast
qed

theorem call_gemini_tier_monotone_witness:
  "models_called (fst (call_gemini_json_with_retry sample_generate ''gemini-1.5-pro'' 2))
     = [''gemini-1.5-pro'', ''gemini-1.5-flash'', ''gemini-1.5-flash'']
   \<and> hd (models_called (fst (call_gemini_json_with_retry sample_generate ''gemini-1.5-pro'' 2)))
     = ''gemini-1.5-pro''
   \<and> \<not> py_in_str ''pro''
        (models_called (fst (call_gemini_json_with_retry sample_generate ''gemini-1.5-pro'' 2)) ! 1)
   \<and> \<not> py_in_str ''pro''
        (models_called (fst (call_gemini_json_with_retry sample_generate ''gemini-1.5-pro'' 2)) ! 2)"
  using call_gemini_tier_monotone [of sample_generate "''gemini-1.5-pro''" 2]
  by (simp add: sample_call)

section \<open>Properties of \<open>find_all_top_level_json\<close>\<close>

lemma slice_snoc:
  "j \<le> length pre \<Longrightarrow> take (Suc (length pre) - j) (drop j (pre @ ch # cs)) = drop j pre @ [ch]"
  by (simp add: Suc_diff_le)

lemma find_loop_blocks:
  assumes "0 \<le> d"
    and "d > 0 \<Longrightarrow> \<exists>j. start = Some j \<and> j \<le> length pre \<and> cur = drop j pre"
    and "d = 0 \<Longrightarrow> cur = []"
  shows "fst (find_loop (pre @ cs) (length pre) cs (out, d, start)) = out @ fst (blocks d cur cs)
       \<and> fst (snd (find_loop (pre @ cs) (length pre) cs (out, d, start))) = fst (snd (blocks d cur cs))"
  using assms
proof (induction cs arbitrary: pre out d start cur)
  case Nil
  then show ?case by simp
next
  case (Cons ch cs)
  have app: "pre @ ch # cs = (pre @ [ch]) @ cs" by simp
  have len: "Suc (length pre) = length (pre @ [ch])" by simp
  show ?case
  proof (cases "ch = CHR ''{''")
    case True
    have "fst (find_loop ((pre @ [ch]) @ cs) (length (pre @ [ch])) cs
               (out, d + 1, if d = 0 then Some (length pre) else start))
          = out @ fst (blocks (d + 1) (if d = 0 then [ch] else cur @ [ch]) cs)
        \<and> fst (snd (find_loop ((pre @ [ch]) @ cs) (length (pre @ [ch])) cs
               (out, d + 1, if d = 0 then Some (length pre) else start)))
          = fst (snd (blocks (d + 1) (if d = 0 then [ch] else cur @ [ch]) cs))"
    proof (rule Cons.IH)
      show "0 \<le> d + 1" using Cons.prems(1) by simp
      show "\<exists>j. (if d = 0 then Some (length pre) else start) = Some j
               \<and> j \<le> length (pre @ [ch]) \<and> (if d = 0 then [ch] else cur @ [ch]) = drop j (pre @ [ch])"
      proof (cases "d = 0")
        case True
        then show ?thesis by simp
      next
        case False
        with Cons.prems(1) have "d > 0" by simp
        from Cons.prems(2) [OF this] False show ?thesis by auto
      qed
      show "d + 1 = 0 \<Longrightarrow> (if d = 0 then [ch] else cur @ [ch]) = []"
        using Cons.prems(1) by simp
    qed
    with True show ?thesis
      unfolding app len [symmetric] by simp
  next
    case nopen: False
    show ?thesis
    proof (cases "ch = CHR ''}''")
      case False
      have "fst (find_loop ((pre @ [ch]) @ cs) (length (pre @ [ch])) cs (out, d, start))
          = out @ fst (blocks d (if d > 0 then cur @ [ch] else cur) cs)
        \<and> fst (snd (find_loop ((pre @ [ch]) @ cs) (length (pre @ [ch])) cs (out, d, start)))
          = fst (snd (blocks d (if d > 0 then cur @ [ch] else cur) cs))"
      proof (rule Cons.IH)
        show "0 \<le> d" by fact
        show "\<exists>j. start = Some j \<and> j \<le> length (pre @ [ch])
               \<and> (if d > 0 then cur @ [ch] else cur) = drop j (pre @ [ch])" if "d > 0"
          using Cons.prems(2) [OF that] that by auto
        show "(if d > 0 then cur @ [ch] else cur) = []" if "d = 0"
          using Cons.prems(3) [OF that] that by simp
      qed
      with False nopen show ?thesis
        unfolding app len [symmetric] by simp
    next
      case close: True
      show ?thesis
      proof (cases "d > 0")
        case False
        with Cons.prems(1) have d0: "d = 0" by simp
        have "fst (find_loop ((pre @ [ch]) @ cs) (length (pre @ [ch])) cs (out, d, start))
            = out @ fst (blocks d cur cs)
          \<and> fst (snd (find_loop ((pre @ [ch]) @ cs) (length (pre @ [ch])) cs (out, d, start)))
            = fst (snd (blocks d cur cs))"
        proof (rule Cons.IH)
          show "0 \<le> d" by fact
          show "\<exists>j. start = Some j \<and> j \<le> length (pre @ [ch]) \<and> cur = drop j (pre @ [ch])"
            if "d > 0" using that d0 by simp
          show "cur = []" if "d = 0" using Cons.prems(3) [OF that] .
        qed
        with False close nopen show ?thesis
          unfolding app len [symmetric] by simp
      next
        case pos: True
        from Cons.prems(2) [OF pos] obtain j where
          j: "start = Some j" "j \<le> length pre" "cur = drop j pre" by blast
        show ?thesis
        proof (cases "d - 1 = 0")
          case True
          have ih: "fst (find_loop ((pre @ [ch]) @ cs) (length (pre @ [ch])) cs
                      (out @ [cur @ [ch]], 0, None))
              = (out @ [cur @ [ch]]) @ fst (blocks 0 [] cs)
            \<and> fst (snd (find_loop ((pre @ [ch]) @ cs) (length (pre @ [ch])) cs
                      (out @ [cur @ [ch]], 0, None)))
              = fst (snd (blocks 0 [] cs))"
            by (rule Cons.IH) simp_all
          have sl: "take (Suc (length pre) - j) (drop j (pre @ ch # cs)) = cur @ [ch]"
            using slice_snoc [OF j(2)] j(3) by simp
          have "find_loop (pre @ ch # cs) (length pre) (ch # cs) (out, d, start)
                = find_loop ((pre @ [ch]) @ cs) (length (pre @ [ch])) cs
                      (out @ [cur @ [ch]], 0, None)"
            using True pos close nopen j(1) sl by simp
          with ih True pos close nopen show ?thesis
            by (simp add: case_prod_beta)
        next
          case False
          have "fst (find_loop ((pre @ [ch]) @ cs) (length (pre @ [ch])) cs (out, d - 1, start))
              = out @ fst (blocks (d - 1) (cur @ [ch]) cs)
            \<and> fst (snd (find_loop ((pre @ [ch]) @ cs) (length (pre @ [ch])) cs (out, d - 1, start)))
              = fst (snd (blocks (d - 1) (cur @ [ch]) cs))"
          proof (rule Cons.IH)
            show "0 \<le> d - 1" using pos by simp
            show "\<exists>j. start = Some j \<and> j \<le> length (pre @ [ch]) \<and> cur @ [ch] = drop j (pre @ [ch])"
              using j by auto
            show "cur @ [ch] = []" if "d - 1 = 0" using that False by simp
          qed
          with False pos close nopen j(1) show ?thesis
            unfolding app len [symmetric] by simp
        qed
      qed
    qed
  qed
qed


lemma find_all_blocks:
  "find_all_top_level_json s0 = fst (blocks 0 [] (defence (py_strip s0)))"
  using find_loop_blocks [of 0 None "[]" "[]" "defence (py_strip s0)" "[]"]
  by (simp add: find_all_top_level_json_def Let_def)

lemma depth_after_blocks: "depth_after s = fst (snd (blocks 0 [] s))"
  using find_loop_blocks [of 0 None "[]" "[]" s "[]"]
  by (simp add: depth_after_def)

lemma blocks_depth: "fst (snd (blocks d cur s)) = brace_depth d s"
  by (induction s arbitrary: d cur) (simp_all add: case_prod_beta)

lemma brace_depth_nonneg: "0 \<le> d \<Longrightarrow> 0 \<le> brace_depth d s"
  by (induction s arbitrary: d) simp_all

lemma blocks_cur_empty:
  "(d = 0 \<longrightarrow> cur = []) \<Longrightarrow> 0 \<le> d \<Longrightarrow> fst (snd (blocks d cur s)) = 0
     \<Longrightarrow> snd (snd (blocks d cur s)) = []"
proof (induction s arbitrary: d cur)
  case Nil
  then show ?case by simp
next
  case (Cons ch cs)
  show ?case
  proof (cases "ch = CHR ''}'' \<and> d - 1 = 0")
    case True
    with Cons.prems Cons.IH [of 0 "[]"] show ?thesis
      by (simp add: case_prod_beta)
  next
    case False
    with Cons.prems show ?thesis
      by (auto simp: case_prod_beta intro!: Cons.IH split: if_splits)
  qed
qed

lemma blocks_append:
  "blocks d cur (u @ v) =
     (case blocks d cur u of (o1, d1, c1) \<Rightarrow>
        (case blocks d1 c1 v of (o2, r) \<Rightarrow> (o1 @ o2, r)))"
  by (induction u arbitrary: d cur) (simp_all add: case_prod_beta)

lemma blocks_top_append:
  assumes "brace_depth 0 u = 0"
  shows "fst (blocks 0 [] (u @ v)) = fst (blocks 0 [] u) @ fst (blocks 0 [] v)"
proof -
  have d: "fst (snd (blocks 0 [] u)) = 0" using assms by (simp add: blocks_depth)
  then have c: "snd (snd (blocks 0 [] u)) = []"
    by (intro blocks_cur_empty) simp_all
  obtain o1 d1 c1 where b: "blocks 0 [] u = (o1, d1, c1)" by (cases "blocks 0 [] u") auto
  with d c have "d1 = 0" "c1 = []" by simp_all
  with b show ?thesis by (simp add: blocks_append case_prod_beta)
qed

lemma blocks_skip_close: "blocks 0 [] (CHR ''}'' # v) = blocks 0 [] v"
  by simp


lemma remove_fences_json:
  "prefix ''```json'' s \<Longrightarrow> remove_fences s = remove_fences (drop 7 s)"
  by (cases s) (simp_all add: remove_fences.simps)

lemma remove_fences_ticks:
  "\<not> prefix ''```json'' s \<Longrightarrow> prefix ''```'' s \<Longrightarrow> remove_fences s = remove_fences (drop 3 s)"
  by (cases s) (simp_all add: remove_fences.simps)

lemma replace_ticks_ticks: "prefix ''```'' s \<Longrightarrow> replace_ticks s = replace_ticks (drop 3 s)"
  by (cases s) (simp_all add: replace_ticks.simps)

lemma prefix_append_char: "c \<notin> set p \<Longrightarrow> prefix p (u @ c # v) = prefix p u"
  by (auto simp: prefix_append prefix_Cons)

lemma ticks_of_json: "prefix ''```json'' s \<Longrightarrow> prefix ''```'' s"
  by (auto simp: prefix_def)

lemma remove_fences_plain:
  "\<not> prefix ''```'' (c # cs) \<Longrightarrow> remove_fences (c # cs) = c # remove_fences cs"
proof -
  assume n: "\<not> prefix ''```'' (c # cs)"
  with ticks_of_json [of "c # cs"] have "\<not> prefix ''```json'' (c # cs)" by blast
  with n show ?thesis by (simp only: remove_fences.simps if_False)
qed

lemma replace_ticks_plain:
  "\<not> prefix ''```'' (c # cs) \<Longrightarrow> replace_ticks (c # cs) = c # replace_ticks cs"
  by (simp only: replace_ticks.simps if_False)

lemma remove_fences_char:
  assumes c: "c \<notin> set ''`json''"
  shows "remove_fences (u @ c # v) = remove_fences u @ c # remove_fences v"
proof (induction "length u" arbitrary: u rule: less_induct)
  case less
  have c7: "c \<notin> set ''```json''" and c3: "c \<notin> set ''```''" using c by auto
  have p7: "prefix ''```json'' (u @ c # v) = prefix ''```json'' u"
    using c7 by (rule prefix_append_char)
  have p3: "prefix ''```'' (u @ c # v) = prefix ''```'' u"
    using c3 by (rule prefix_append_char)
  show ?case
  proof (cases "prefix ''```json'' u")
    case True
    then have len: "7 \<le> length u" using prefix_length_le by fastforce
    then have dr: "drop 7 (u @ c # v) = drop 7 u @ c # v" by simp
    have "remove_fences (u @ c # v) = remove_fences (drop 7 u @ c # v)"
      using True p7 remove_fences_json [of "u @ c # v"] dr by simp
    also have "\<dots> = remove_fences (drop 7 u) @ c # remove_fences v"
      using len by (intro less) simp
    also have "remove_fences (drop 7 u) = remove_fences u"
      using True by (simp add: remove_fences_json)
    finally show ?thesis .
  next
    case n7: False
    show ?thesis
    proof (cases "prefix ''```'' u")
      case True
      then have len: "3 \<le> length u" using prefix_length_le by fastforce
      then have dr: "drop 3 (u @ c # v) = drop 3 u @ c # v" by simp
      have "remove_fences (u @ c # v) = remove_fences (drop 3 u @ c # v)"
        using True n7 p7 p3 remove_fences_ticks [of "u @ c # v"] dr by simp
      also have "\<dots> = remove_fences (drop 3 u) @ c # remove_fences v"
        using len by (intro less) simp
      also have "remove_fences (drop 3 u) = remove_fences u"
        using True n7 by (simp add: remove_fences_ticks)
      finally show ?thesis .
    next
      case n3: False
      show ?thesis
      proof (cases u)
        case Nil
        have "\<not> prefix ''```'' (c # v)" using p3 n3 Nil by simp
        then show ?thesis using Nil by (simp add: remove_fences_plain del: Cons_prefix_Cons)
      next
        case (Cons a us)
        have "\<not> prefix ''```'' (a # (us @ c # v))" using p3 n3 Cons by simp
        then have "remove_fences (u @ c # v) = a # remove_fences (us @ c # v)"
          using Cons by (simp add: remove_fences_plain del: Cons_prefix_Cons)
        moreover have "remove_fences (us @ c # v) = remove_fences us @ c # remove_fences v"
          using Cons by (intro less) simp
        moreover have "remove_fences u = a # remove_fences us"
          using n3 Cons by (simp add: remove_fences_plain del: Cons_prefix_Cons)
        ultimately show ?thesis by simp
      qed
    qed
  qed
qed

lemma replace_ticks_char:
  assumes c: "c \<noteq> CHR ''`''"
  shows "replace_ticks (u @ c # v) = replace_ticks u @ c # replace_ticks v"
proof (induction "length u" arbitrary: u rule: less_induct)
  case less
  have c3: "c \<notin> set ''```''" using c by auto
  have p3: "prefix ''```'' (u @ c # v) = prefix ''```'' u"
    using c3 by (rule prefix_append_char)
  show ?case
  proof (cases "prefix ''```'' u")
    case True
    then have len: "3 \<le> length u" using prefix_length_le by fastforce
    then have dr: "drop 3 (u @ c # v) = drop 3 u @ c # v" by simp
    have "replace_ticks (u @ c # v) = replace_ticks (drop 3 u @ c # v)"
      using True p3 replace_ticks_ticks [of "u @ c # v"] dr by simp
    also have "\<dots> = replace_ticks (drop 3 u) @ c # replace_ticks v"
      using len by (intro less) simp
    also have "replace_ticks (drop 3 u) = replace_ticks u"
      using True by (simp add: replace_ticks_ticks)
    finally show ?thesis .
  next
    case n3: False
    show ?thesis
    proof (cases u)
      case Nil
      have "\<not> prefix ''```'' (c # v)" using p3 n3 Nil by simp
      then show ?thesis using Nil by (simp add: replace_ticks_plain del: Cons_prefix_Cons)
    next
      case (Cons a us)
      have "\<not> prefix ''```'' (a # (us @ c # v))" using p3 n3 Cons by simp
      then have "replace_ticks (u @ c # v) = a # replace_ticks (us @ c # v)"
        using Cons by (simp add: replace_ticks_plain del: Cons_prefix_Cons)
      moreover have "replace_ticks (us @ c # v) = replace_ticks us @ c # replace_ticks v"
        using Cons by (intro less) simp
      moreover have "replace_ticks u = a # replace_ticks us"
        using n3 Cons by (simp add: replace_ticks_plain del: Cons_prefix_Cons)
      ultimately show ?thesis by simp
    qed
  qed
qed

lemma defence_char:
  "c \<notin> set ''`json'' \<Longrightarrow> defence (u @ c # v) = defence u @ c # defence v"
  by (simp add: defence_def remove_fences_char replace_ticks_char)


lemma space_plain: "py_isspace c \<Longrightarrow> c \<notin> set ''`json'' \<and> c \<noteq> CHR ''{'' \<and> c \<noteq> CHR ''}''"
  by (auto simp: py_isspace_def)

lemma defence_Nil: "defence [] = []"
  by (simp add: defence_def)

lemma candidates_lead_space:
  "\<forall>c\<in>set w. py_isspace c
   \<Longrightarrow> fst (blocks 0 [] (defence (w @ z))) = fst (blocks 0 [] (defence z))"
proof (induction w)
  case Nil
  then show ?case by simp
next
  case (Cons c w)
  then have c: "c \<notin> set ''`json''" "c \<noteq> CHR ''{''" "c \<noteq> CHR ''}''"
    using space_plain [of c] by simp_all
  have "defence ((c # w) @ z) = c # defence (w @ z)"
    using defence_char [OF c(1), of "[]" "w @ z"] by (simp add: defence_Nil)
  with c Cons show ?case by simp
qed

lemma blocks_plain_char:
  "c \<noteq> CHR ''{'' \<Longrightarrow> c \<noteq> CHR ''}'' \<Longrightarrow> fst (blocks d cur (t @ [c])) = fst (blocks d cur t)"
  by (simp add: blocks_append case_prod_beta)

lemma candidates_trail_space:
  "\<forall>c\<in>set w. py_isspace c
   \<Longrightarrow> fst (blocks 0 [] (defence (z @ w))) = fst (blocks 0 [] (defence z))"
proof (induction w rule: rev_induct)
  case Nil
  then show ?case by simp
next
  case (snoc c w)
  then have c: "c \<notin> set ''`json''" "c \<noteq> CHR ''{''" "c \<noteq> CHR ''}''"
    using space_plain [of c] by simp_all
  have "defence (z @ w @ [c]) = defence (z @ w) @ [c]"
    using defence_char [OF c(1), of "z @ w" "[]"] by (simp add: defence_Nil)
  with c snoc show ?case by (simp add: blocks_plain_char)
qed

lemma py_strip_decompose:
  "\<exists>w1 w2. s = w1 @ py_strip s @ w2 \<and> (\<forall>c\<in>set w1. py_isspace c) \<and> (\<forall>c\<in>set w2. py_isspace c)"
proof -
  let ?a = "dropWhile py_isspace s"
  let ?w1 = "takeWhile py_isspace s"
  let ?w2 = "rev (takeWhile py_isspace (rev ?a))"
  have "rev (takeWhile py_isspace (rev ?a) @ dropWhile py_isspace (rev ?a)) = ?a"
    by (simp only: takeWhile_dropWhile_id rev_rev_ident)
  then have "rev (dropWhile py_isspace (rev ?a)) @ ?w2 = ?a"
    by (simp only: rev_append)
  then have "?a = py_strip s @ ?w2"
    by (simp only: py_strip_def)
  then have "s = ?w1 @ py_strip s @ ?w2"
    by (metis takeWhile_dropWhile_id)
  moreover have "\<forall>c\<in>set ?w1. py_isspace c" by (auto dest: set_takeWhileD)
  moreover have "\<forall>c\<in>set ?w2. py_isspace c" by (auto dest: set_takeWhileD)
  ultimately show ?thesis by blast
qed

lemma find_all_without_strip:
  "find_all_top_level_json s = fst (blocks 0 [] (defence s))"
proof -
  from py_strip_decompose [of s] obtain w1 w2 where
    d: "s = w1 @ py_strip s @ w2" and w1: "\<forall>c\<in>set w1. py_isspace c"
    and w2: "\<forall>c\<in>set w2. py_isspace c" by blast
  have "fst (blocks 0 [] (defence (w1 @ py_strip s @ w2)))
        = fst (blocks 0 [] (defence (py_strip s @ w2)))"
    using w1 by (rule candidates_lead_space)
  also have "\<dots> = fst (blocks 0 [] (defence (py_strip s)))"
    using w2 by (rule candidates_trail_space)
  finally show ?thesis using d by (simp add: find_all_blocks)
qed

lemma brace_depth_drop_json:
  "prefix ''```json'' s \<Longrightarrow> brace_depth d (drop 7 s) = brace_depth d s"
  by (auto simp: prefix_def)

lemma brace_depth_drop_ticks:
  "prefix ''```'' s \<Longrightarrow> brace_depth d (drop 3 s) = brace_depth d s"
  by (auto simp: prefix_def)

lemma brace_depth_remove_fences: "brace_depth d (remove_fences s) = brace_depth d s"
proof (induction s arbitrary: d rule: remove_fences.induct)
  case 1
  then show ?case by simp
next
  case (2 c cs)
  show ?case
  proof (cases "prefix ''```json'' (c # cs)")
    case True
    with "2.IH"(1) [OF True, of d] show ?thesis
      using brace_depth_drop_json [OF True, of d] by (simp only: remove_fences_json [OF True])
  next
    case n7: False
    show ?thesis
    proof (cases "prefix ''```'' (c # cs)")
      case True
      with "2.IH"(2) [OF n7 True, of d] show ?thesis
        using brace_depth_drop_ticks [OF True, of d]
        by (simp only: remove_fences_ticks [OF n7 True])
    next
      case False
      with "2.IH"(3) [OF n7 False] show ?thesis
        by (simp add: remove_fences_plain del: Cons_prefix_Cons)
    qed
  qed
qed

lemma brace_depth_replace_ticks: "brace_depth d (replace_ticks s) = brace_depth d s"
proof (induction s arbitrary: d rule: replace_ticks.induct)
  case 1
  then show ?case by simp
next
  case (2 c cs)
  show ?case
  proof (cases "prefix ''```'' (c # cs)")
    case True
    with "2.IH"(1) [OF True, of d] show ?thesis
      using brace_depth_drop_ticks [OF True, of d]
      by (simp only: replace_ticks_ticks [OF True])
  next
    case False
    with "2.IH"(2) [OF False] show ?thesis
      by (simp add: replace_ticks_plain del: Cons_prefix_Cons)
  qed
qed

lemma brace_depth_defence: "brace_depth d (defence s) = brace_depth d s"
  by (simp add: defence_def brace_depth_replace_ticks brace_depth_remove_fences)

lemma depth_after_brace_depth: "depth_after s = brace_depth 0 s"
  by (simp add: depth_after_blocks blocks_depth)

text \<open>
  C10. The depth counter of \<open>find_all_top_level_json\<close> is never negative, since a \<open>}\<close>
  read at depth 0 is ignored. So a \<open>}\<close> put between \<open>x\<close> and \<open>y\<close> leaves the
  candidates of \<open>x @ y\<close> unchanged when the depth after \<open>x\<close> is zero (a top-level position
  between balanced blocks) and the removal of the code-fence markers treats \<open>x\<close> and \<open>y\<close>
  apart (the position is not inside a marker).
\<close>

theorem find_all_ignores_unmatched_close:
  "0 \<le> depth_after s
   \<and> (depth_after x = 0 \<and> defence (x @ y) = defence x @ defence y
      \<longrightarrow> find_all_top_level_json (x @ CHR ''}'' # y) = find_all_top_level_json (x @ y))"
proof (intro conjI impI)
  show "0 \<le> depth_after s"
    by (simp add: depth_after_brace_depth brace_depth_nonneg)
next
  assume a: "depth_after x = 0 \<and> defence (x @ y) = defence x @ defence y"
  then have top: "brace_depth 0 (defence x) = 0"
    by (simp add: depth_after_brace_depth brace_depth_defence)
  have "find_all_top_level_json (x @ CHR ''}'' # y)
        = fst (blocks 0 [] (defence x @ CHR ''}'' # defence y))"
    by (simp add: find_all_without_strip defence_char)
  also have "\<dots> = fst (blocks 0 [] (defence x)) @ fst (blocks 0 [] (CHR ''}'' # defence y))"
    using top by (rule blocks_top_append)
  also have "\<dots> = fst (blocks 0 [] (defence x)) @ fst (blocks 0 [] (defence y))"
    by simp
  also have "\<dots> = fst (blocks 0 [] (defence x @ defence y))"
    using top by (rule blocks_top_append [symmetric])
  also have "\<dots> = find_all_top_level_json (x @ y)"
    using a by (simp add: find_all_without_strip)
  finally show "find_all_top_level_json (x @ CHR ''}'' # y) = find_all_top_level_json (x @ y)" .
qed

theorem find_all_ignores_unmatched_close_witness:
  "0 \<le> depth_after ''{{''
   \<and> depth_after ''```json {a}'' = 0
   \<and> defence (''```json {a}'' @ '' {b}```'') = defence ''```json {a}'' @ defence '' {b}```''
   \<and> find_all_top_level_json (''```json {a}'' @ CHR ''}'' # '' {b}```'') = [''{a}'', ''{b}'']
   \<and> find_all_top_level_json (''```json {a}'' @ '' {b}```'') = [''{a}'', ''{b}'']"
  using find_all_ignores_unmatched_close [of "''{{''" "''```json {a}''" "'' {b}```''"]
  by (simp add: find_all_eval)

end
